theory Spec2Isabelle
  imports Main
begin

section \<open>elog/messages.py: the log-file parser\<close>

text \<open>
  The embedding follows \<^verbatim>\<open>lib/portage/elog/messages.py\<close>. Python strings are
  \<^typ>\<open>string\<close>, dictionaries are maps, a variable that may hold \<^verbatim>\<open>None\<close> is an
  \<^typ>\<open>'a option\<close>. The calls that reach outside the module (\<^verbatim>\<open>writemsg\<close>,
  \<^verbatim>\<open>io.open\<close>, \<^verbatim>\<open>os.unlink\<close>) are recorded, in the order in which
  they happen, as a list of events returned beside the result.
\<close>

subsection \<open>Log levels and the shape of a line\<close>

definition log_levels :: "string set" where
  "log_levels = {''ERROR'', ''INFO'', ''LOG'', ''QA'', ''WARN''}"

text \<open>\<^verbatim>\<open>text.split(sep)\<close> of Python for a one-character separator.\<close>

fun split_on :: "char \<Rightarrow> string \<Rightarrow> string list" where
  "split_on sep [] = [[]]"
| "split_on sep (c # cs) =
     (if c = sep then [] # split_on sep cs
      else (case split_on sep cs of
              [] \<Rightarrow> [[c]]
            | w # ws \<Rightarrow> (c # w) # ws))"

text \<open>
  \<^verbatim>\<open>msgtype, msg = l.split(" ", 1)\<close>: the line is cut at its first space. A line
  without a space gives a one-element list, whose unpacking raises
  \<^verbatim>\<open>ValueError\<close>: that is \<open>None\<close>.
\<close>

definition split_pair :: "string \<Rightarrow> (string \<times> string) option" where
  "split_pair l =
     (if CHR '' '' \<in> set l
      then Some (takeWhile (\<lambda>c. c \<noteq> CHR '' '') l, tl (dropWhile (\<lambda>c. c \<noteq> CHR '' '') l))
      else None)"

text \<open>The body of the \<^verbatim>\<open>try\<close> block; \<open>None\<close> is the \<^verbatim>\<open>ValueError\<close> branch.\<close>

definition parse_entry :: "string \<Rightarrow> (string \<times> string) option" where
  "parse_entry l =
     (case split_pair l of
        None \<Rightarrow> None
      | Some (msgtype, msg) \<Rightarrow> if msgtype \<in> log_levels then Some (msgtype, msg) else None)"

subsection \<open>Events, errors and the directory\<close>

datatype event =
    Writemsg_invalid_file string
  | Writemsg_malformed string string
  | Io_open string
  | Os_unlink string

datatype error = OSError string

text \<open>
  A file of the directory: \<open>data\<close> is the decoded text that \<^verbatim>\<open>f.read()\<close>
  returns (\<open>None\<close> when \<^verbatim>\<open>io.open\<close> raises), \<open>removable\<close> tells whether
  \<^verbatim>\<open>os.unlink\<close> succeeds on it.
\<close>

record logfile =
  data :: "string option"
  removable :: bool

text \<open>
  The directory at \<^verbatim>\<open>path\<close>: \<open>listdir\<close> is what \<^verbatim>\<open>os.listdir(path)\<close> returns
  (\<open>None\<close> when it raises \<^verbatim>\<open>OSError\<close>), \<open>files\<close> maps a name to the file
  that exists under it. A listed name need not exist any more when it is opened or
  unlinked.
\<close>

record directory =
  listdir :: "string list option"
  files :: "string \<rightharpoonup> logfile"

text \<open>\<^verbatim>\<open>os.path.join(path, name)\<close> for POSIX paths.\<close>

definition os_path_join :: "string \<Rightarrow> string \<Rightarrow> string" where
  "os_path_join path name =
     (if name \<noteq> [] \<and> hd name = CHR ''/'' then name
      else if path = [] \<or> last path = CHR ''/'' then path @ name
      else path @ ''/'' @ name)"

definition io_open :: "directory \<Rightarrow> string \<Rightarrow> string option" where
  "io_open d name = (case files d name of None \<Rightarrow> None | Some f \<Rightarrow> data f)"

definition os_unlink :: "string \<Rightarrow> directory \<Rightarrow> error + directory" where
  "os_unlink name d =
     (case files d name of
        None \<Rightarrow> Inl (OSError name)
      | Some f \<Rightarrow>
          if removable f
          then Inr (d\<lparr>listdir := map_option (filter (\<lambda>n. n \<noteq> name)) (listdir d),
                      files := (files d)(name := None)\<rparr>)
          else Inl (OSError name))"

subsection \<open>The grouping loop over the lines of one file\<close>

type_synonym msggroup = "string option \<times> string list"

text \<open>
  The variables of the inner loop. \<open>entries\<close> is the list
  \<^verbatim>\<open>logentries[msgfunction]\<close> that the loop appends to. A group holds the value of
  \<^verbatim>\<open>lastmsgtype\<close> at the time it is appended, hence an option.
\<close>

record pstate =
  lastmsgtype :: "string option"
  msgcontent :: "string list"
  entries :: "msggroup list"

definition line_step :: "string \<Rightarrow> string \<Rightarrow> pstate \<Rightarrow> pstate \<times> event list" where
  "line_step filename l st =
     (if l = [] then (st, [])
      else case parse_entry l of
        None \<Rightarrow> (st, [Writemsg_malformed filename l])
      | Some (msgtype, msg) \<Rightarrow>
          (let last = (case lastmsgtype st of None \<Rightarrow> Some msgtype | Some t \<Rightarrow> Some t)
           in if Some msgtype = last
              then (st\<lparr>lastmsgtype := Some msgtype, msgcontent := msgcontent st @ [msg]\<rparr>, [])
              else (st\<lparr>lastmsgtype := Some msgtype,
                       msgcontent := [msg],
                       entries := (if msgcontent st \<noteq> []
                                   then entries st @ [(last, msgcontent st)]
                                   else entries st)\<rparr>, [])))"

fun read_lines :: "string \<Rightarrow> string list \<Rightarrow> pstate \<Rightarrow> pstate \<times> event list" where
  "read_lines filename [] st = (st, [])"
| "read_lines filename (l # ls) st =
     (case line_step filename l st of
        (st1, evs1) \<Rightarrow>
          (case read_lines filename ls st1 of
             (st2, evs2) \<Rightarrow> (st2, evs1 @ evs2)))"

text \<open>The flush after the loop: \<^verbatim>\<open>if msgcontent: logentries[msgfunction].append(...)\<close>.\<close>

definition flush :: "pstate \<Rightarrow> msggroup list" where
  "flush st =
     (if msgcontent st \<noteq> [] then entries st @ [(lastmsgtype st, msgcontent st)]
      else entries st)"

subsection \<open>The loop over the files, the cleanup and the whole function\<close>

type_synonym logentries = "string \<rightharpoonup> msggroup list"

text \<open>
  One iteration of the outer loop. \<open>phases\<close> is \<^verbatim>\<open>EBUILD_PHASES\<close> of
  \<^verbatim>\<open>portage.const\<close>, which is not part of this module and is therefore a parameter.
  An \<^verbatim>\<open>io.open\<close> that raises is not caught by the source: it ends the call.
\<close>

definition process_file ::
  "string set \<Rightarrow> string \<Rightarrow> directory \<Rightarrow> string \<Rightarrow> logentries \<Rightarrow> error + (logentries \<times> event list)"
where
  "process_file phases path d msgfunction le =
     (let filename = os_path_join path msgfunction
      in if msgfunction \<notin> phases then Inr (le, [Writemsg_invalid_file filename])
         else
           (let cur = (case le msgfunction of None \<Rightarrow> [] | Some gs \<Rightarrow> gs)
            in case io_open d msgfunction of
                 None \<Rightarrow> Inl (OSError filename)
               | Some text \<Rightarrow>
                   (case read_lines filename (split_on (CHR 0x0A) text)
                           \<lparr>lastmsgtype = None, msgcontent = [], entries = cur\<rparr> of
                      (st, evs) \<Rightarrow> Inr (le(msgfunction \<mapsto> flush st), Io_open filename # evs))))"

fun process_files ::
  "string set \<Rightarrow> string \<Rightarrow> directory \<Rightarrow> string list \<Rightarrow> logentries \<Rightarrow> error + (logentries \<times> event list)"
where
  "process_files phases path d [] le = Inr (le, [])"
| "process_files phases path d (f # fs) le =
     (case process_file phases path d f le of
        Inl e \<Rightarrow> Inl e
      | Inr (le1, evs1) \<Rightarrow>
          (case process_files phases path d fs le1 of
             Inl e \<Rightarrow> Inl e
           | Inr (le2, evs2) \<Rightarrow> Inr (le2, evs1 @ evs2)))"

text \<open>The cleanup loop: every \<^verbatim>\<open>OSError\<close> of \<^verbatim>\<open>os.unlink\<close> is swallowed.\<close>

fun unlink_all :: "string \<Rightarrow> string list \<Rightarrow> directory \<Rightarrow> directory \<times> event list" where
  "unlink_all path [] d = (d, [])"
| "unlink_all path (f # fs) d =
     (let d1 = (case os_unlink f d of Inl e \<Rightarrow> d | Inr d' \<Rightarrow> d')
      in case unlink_all path fs d1 of
           (d2, evs) \<Rightarrow> (d2, Os_unlink (os_path_join path f) # evs))"

definition collect_ebuild_messages ::
  "string set \<Rightarrow> string \<Rightarrow> directory \<Rightarrow> error + (logentries \<times> directory \<times> event list)"
where
  "collect_ebuild_messages phases path d =
     (case listdir d of
        None \<Rightarrow> Inr (Map.empty, d, [])
      | Some listing \<Rightarrow>
          if listing = [] then Inr (Map.empty, d, [])
          else
            (let mylogfiles = rev listing
             in case process_files phases path d mylogfiles Map.empty of
                  Inl e \<Rightarrow> Inl e
                | Inr (le, evs) \<Rightarrow>
                    (case unlink_all path mylogfiles d of
                       (d', evs') \<Rightarrow> Inr (le, d', evs @ evs'))))"

subsection \<open>What a call is observed to do\<close>

text \<open>
  The files that the outer loop reaches, in order: each one is either opened or
  reported as an invalid log file.
\<close>

fun visited :: "event list \<Rightarrow> string list" where
  "visited [] = []"
| "visited (Io_open f # es) = f # visited es"
| "visited (Writemsg_invalid_file f # es) = f # visited es"
| "visited (e # es) = visited es"

text \<open>The files that are opened, and the files on which \<^verbatim>\<open>os.unlink\<close> is called.\<close>

fun opened :: "event list \<Rightarrow> string list" where
  "opened [] = []"
| "opened (Io_open f # es) = f # opened es"
| "opened (e # es) = opened es"

fun unlinked :: "event list \<Rightarrow> string list" where
  "unlinked [] = []"
| "unlinked (Os_unlink f # es) = f # unlinked es"
| "unlinked (e # es) = unlinked es"

subsection \<open>Notions of the specification\<close>

text \<open>
  The first whitespace-delimited token of a line, for the whitespace characters of
  ASCII; it is what \<^verbatim>\<open>l.split()[0]\<close> gives when the line has a token, and empty
  otherwise.
\<close>

definition whitespace :: "char set" where
  "whitespace = {CHR '' '', CHR 0x09, CHR 0x0A, CHR 0x0B, CHR 0x0C, CHR 0x0D,
                 CHR 0x1C, CHR 0x1D, CHR 0x1E, CHR 0x1F}"

definition first_token :: "string \<Rightarrow> string" where
  "first_token l = takeWhile (\<lambda>c. c \<notin> whitespace) (dropWhile (\<lambda>c. c \<in> whitespace) l)"

text \<open>
  The entries of the lines that pass the \<^verbatim>\<open>try\<close> block, in the order of the lines,
  each with its level as the loop stores it.
\<close>

definition valid_entries :: "string list \<Rightarrow> (string option \<times> string) list" where
  "valid_entries ls = map (\<lambda>(t, m). (Some t, m)) (List.map_filter parse_entry ls)"

text \<open>
  \<open>gs\<close> are the maximal runs of \<open>xs\<close>: the groups, laid out one after the other,
  give \<open>xs\<close> back in its order; no group is empty; no two neighbouring groups have the
  same level.
\<close>

definition maximal_runs :: "(string option \<times> string) list \<Rightarrow> msggroup list \<Rightarrow> bool" where
  "maximal_runs xs gs \<longleftrightarrow>
     concat (map (\<lambda>(s, ms). map (Pair s) ms) gs) = xs
     \<and> (\<forall>g \<in> set gs. snd g \<noteq> [])
     \<and> distinct_adj (map fst gs)"

section \<open>elog/messages.py: the message buffer\<close>

text \<open>
  \<^verbatim>\<open>_msgbuffer\<close> maps a key to a mapping from a phase to the list of
  \<^verbatim>\<open>(level, msg)\<close> pairs. The key of a message may be \<^verbatim>\<open>None\<close>, so keys are
  options. The module global is passed in and returned. What \<^verbatim>\<open>_elog_base\<close> writes
  to \<^verbatim>\<open>out\<close> does not touch the buffer and is left out; \<^verbatim>\<open>msg\<close> is the text
  already decoded.
\<close>

type_synonym phasemap = "string \<rightharpoonup> (string \<times> string) list"
type_synonym 'k msgbuffer = "'k option \<rightharpoonup> phasemap"

definition elog_base :: "string \<Rightarrow> string \<Rightarrow> string \<Rightarrow> 'k option \<Rightarrow> 'k msgbuffer \<Rightarrow> 'k msgbuffer" where
  "elog_base level msg phase key buf =
     (let pm = (case buf key of None \<Rightarrow> Map.empty | Some pm \<Rightarrow> pm);
          es = (case pm phase of None \<Rightarrow> [] | Some es \<Rightarrow> es)
      in buf(key \<mapsto> pm(phase \<mapsto> es @ [(level, msg)])))"

definition reset_buffer :: "'k msgbuffer \<Rightarrow> 'k msgbuffer" where
  "reset_buffer buf = Map.empty"

text \<open>
  The loop over \<^verbatim>\<open>phasefilter\<close>: the first component is \<^verbatim>\<open>rValue[key]\<close>, the
  second \<^verbatim>\<open>_msgbuffer[key]\<close>. A phase that is not there raises \<^verbatim>\<open>KeyError\<close>,
  which is passed over.
\<close>

fun pop_phases :: "string list \<Rightarrow> phasemap \<times> phasemap \<Rightarrow> phasemap \<times> phasemap" where
  "pop_phases [] (rv, pm) = (rv, pm)"
| "pop_phases (phase # ps) (rv, pm) =
     (case pm phase of
        None \<Rightarrow> pop_phases ps (rv, pm)
      | Some es \<Rightarrow> pop_phases ps (rv(phase \<mapsto> es), pm(phase := None)))"

text \<open>The result is the pair of \<^verbatim>\<open>rValue\<close> and the buffer after the call.\<close>

definition collect_messages ::
  "'k option \<Rightarrow> string list option \<Rightarrow> 'k msgbuffer \<Rightarrow> 'k msgbuffer \<times> 'k msgbuffer"
where
  "collect_messages key phasefilter buf =
     (case key of
        None \<Rightarrow> (buf, reset_buffer buf)
      | Some k \<Rightarrow>
          (case buf key of
             None \<Rightarrow> (Map.empty, buf)
           | Some pm \<Rightarrow>
               (case phasefilter of
                  None \<Rightarrow> ([key \<mapsto> pm], buf(key := None))
                | Some ps \<Rightarrow>
                    (case pop_phases ps (Map.empty, pm) of
                       (rv, pm') \<Rightarrow>
                         ([key \<mapsto> rv],
                          if pm' = Map.empty then buf(key := None) else buf(key \<mapsto> pm'))))))"

subsection \<open>Sequences of calls\<close>

text \<open>A call of one of the functions of the module that touch the buffer.\<close>

datatype 'k call =
    Record string string string "'k option"
  | Drain "'k option" "string list option"
  | Reset

fun run_call :: "'k call \<Rightarrow> 'k msgbuffer \<Rightarrow> 'k msgbuffer" where
  "run_call (Record level msg phase key) buf = elog_base level msg phase key buf"
| "run_call (Drain key phasefilter) buf = snd (collect_messages key phasefilter buf)"
| "run_call Reset buf = reset_buffer buf"

text \<open>The buffer after a sequence of calls, the first call first.\<close>

fun run :: "'k call list \<Rightarrow> 'k msgbuffer \<Rightarrow> 'k msgbuffer" where
  "run [] buf = buf"
| "run (c # cs) buf = run cs (run_call c buf)"

text \<open>
  The values returned by a sequence of \<^verbatim>\<open>collect_messages\<close> calls with nothing in
  between, each call given by its \<^verbatim>\<open>key\<close> and its \<^verbatim>\<open>phasefilter\<close>.
\<close>

fun drains :: "('k option \<times> string list option) list \<Rightarrow> 'k msgbuffer \<Rightarrow> 'k msgbuffer list" where
  "drains [] buf = []"
| "drains ((key, phasefilter) # cs) buf =
     (case collect_messages key phasefilter buf of (rv, buf') \<Rightarrow> rv # drains cs buf')"

text \<open>
  The entries that a buffer (or a returned mapping of the same shape) holds under a key
  and a phase; none when the key or the phase is missing.
\<close>

definition entries_at :: "'k msgbuffer \<Rightarrow> 'k option \<Rightarrow> string \<Rightarrow> (string \<times> string) list" where
  "entries_at b k p =
     (case b k of
        None \<Rightarrow> []
      | Some pm \<Rightarrow> (case pm p of None \<Rightarrow> [] | Some es \<Rightarrow> es))"

text \<open>No key without a phase, no phase without an entry.\<close>

definition buffer_ok :: "'k msgbuffer \<Rightarrow> bool" where
  "buffer_ok buf \<longleftrightarrow>
     (\<forall>k pm. buf k = Some pm \<longrightarrow> pm \<noteq> Map.empty \<and> (\<forall>p es. pm p = Some es \<longrightarrow> es \<noteq> []))"

section \<open>Properties of the log-file parser\<close>

subsection \<open>Lines\<close>

lemma split_pair_Some:
  "split_pair l = Some (a, b) \<Longrightarrow> l = a @ CHR '' '' # b \<and> CHR '' '' \<notin> set a"
proof -
  assume h: "split_pair l = Some (a, b)"
  then have sp: "CHR '' '' \<in> set l" by (auto simp: split_pair_def split: if_splits)
  from h sp have a: "a = takeWhile (\<lambda>c. c \<noteq> CHR '' '') l" and b: "b = tl (dropWhile (\<lambda>c. c \<noteq> CHR '' '') l)"
    by (auto simp: split_pair_def)
  from sp have ne: "dropWhile (\<lambda>c. c \<noteq> CHR '' '') l \<noteq> []" by (auto simp: dropWhile_eq_Nil_conv)
  then have "hd (dropWhile (\<lambda>c. c \<noteq> CHR '' '') l) = CHR '' ''"
    using hd_dropWhile [OF ne] by simp
  with ne have "dropWhile (\<lambda>c. c \<noteq> CHR '' '') l = CHR '' '' # b"
    unfolding b by (cases "dropWhile (\<lambda>c. c \<noteq> CHR '' '') l") auto
  then have "l = a @ CHR '' '' # b"
    unfolding a using takeWhile_dropWhile_id [of "\<lambda>c. c \<noteq> CHR '' ''" l] by simp
  moreover have "CHR '' '' \<notin> set a"
    unfolding a using set_takeWhileD by fastforce
  ultimately show ?thesis by simp
qed

lemma level_no_whitespace: "t \<in> log_levels \<Longrightarrow> t \<noteq> [] \<and> (\<forall>c \<in> set t. c \<notin> whitespace)"
  by (auto simp: log_levels_def whitespace_def)

lemma parse_entry_Some:
  assumes "parse_entry l = Some (t, m)"
  shows "l = t @ CHR '' '' # m \<and> t \<in> log_levels"
  using assms split_pair_Some [of l]
  by (auto simp: parse_entry_def split: option.splits if_splits)

lemma parse_entry_first_token:
  assumes "parse_entry l = Some (t, m)"
  shows "first_token l = t \<and> CHR '' '' \<in> set l"
proof -
  from parse_entry_Some [OF assms] have l: "l = t @ CHR '' '' # m" and t: "t \<in> log_levels" by auto
  from level_no_whitespace [OF t] have ne: "t \<noteq> []" and nw: "\<forall>c \<in> set t. c \<notin> whitespace" by auto
  from ne obtain c cs where tc: "t = c # cs" by (cases t) auto
  with nw have "c \<notin> whitespace" by simp
  then have d: "dropWhile (\<lambda>c. c \<in> whitespace) l = l" unfolding l tc by simp
  have sp: "CHR '' '' \<in> whitespace" by (simp add: whitespace_def)
  have "takeWhile (\<lambda>c. c \<notin> whitespace) (t @ CHR '' '' # m) = t"
    using nw sp by (simp add: takeWhile_append2 [of t] takeWhile_tail)
  then show ?thesis unfolding first_token_def d using l by simp
qed

lemma parse_entry_Nil: "parse_entry [] = None"
  by (simp add: parse_entry_def split_pair_def)

lemma line_step_malformed:
  "l \<noteq> [] \<Longrightarrow> parse_entry l = None \<Longrightarrow> line_step fn l st = (st, [Writemsg_malformed fn l])"
  by (simp add: line_step_def)

lemma line_step_entry:
  assumes "parse_entry l = Some (t, m)"
  shows "line_step fn l st =
     (if lastmsgtype st = None \<or> lastmsgtype st = Some t
      then (st\<lparr>lastmsgtype := Some t, msgcontent := msgcontent st @ [m]\<rparr>, [])
      else (st\<lparr>lastmsgtype := Some t, msgcontent := [m],
               entries := (if msgcontent st \<noteq> [] then entries st @ [(lastmsgtype st, msgcontent st)]
                           else entries st)\<rparr>, []))"
proof -
  from assms have "l \<noteq> []" using parse_entry_Nil by auto
  then show ?thesis using assms
    by (auto simp: line_step_def Let_def split: option.splits)
qed

subsection \<open>The grouping loop\<close>

lemma read_lines_Cons_fst:
  "fst (read_lines fn (l # ls) st) = fst (read_lines fn ls (fst (line_step fn l st)))"
  by (simp split: prod.splits)

lemma read_lines_Cons_snd:
  "snd (read_lines fn (l # ls) st) = snd (line_step fn l st) @ snd (read_lines fn ls (fst (line_step fn l st)))"
  by (simp split: prod.splits)

lemma line_step_skip:
  "parse_entry l = None \<Longrightarrow> fst (line_step fn l st) = st"
  by (simp add: line_step_def)

lemma valid_entries_Nil: "valid_entries [] = []"
  by (simp add: valid_entries_def map_filter_simps)

lemma valid_entries_Cons:
  "valid_entries (l # ls) =
     (case parse_entry l of None \<Rightarrow> valid_entries ls | Some (t, m) \<Rightarrow> (Some t, m) # valid_entries ls)"
  by (simp add: valid_entries_def map_filter_simps split: option.splits)

lemma valid_entries_append: "valid_entries (xs @ ys) = valid_entries xs @ valid_entries ys"
  by (induction xs) (simp_all add: valid_entries_Nil valid_entries_Cons split: option.splits)

lemma read_lines_runs:
  assumes "lastmsgtype st = None \<longleftrightarrow> msgcontent st = []"
  shows "\<exists>R. flush (fst (read_lines fn ls st)) = entries st @ R
           \<and> concat (map (\<lambda>(s, ms). map (Pair s) ms) R)
               = map (Pair (lastmsgtype st)) (msgcontent st) @ valid_entries ls
           \<and> (\<forall>g \<in> set R. snd g \<noteq> [])
           \<and> distinct_adj (map fst R)
           \<and> (msgcontent st \<noteq> [] \<longrightarrow> R \<noteq> [] \<and> fst (hd R) = lastmsgtype st)"
  using assms
proof (induction ls arbitrary: st)
  case Nil
  show ?case
  proof (cases "msgcontent st = []")
    case True
    then show ?thesis by (simp add: flush_def valid_entries_Nil)
  next
    case False
    then have "flush (fst (read_lines fn [] st)) = entries st @ [(lastmsgtype st, msgcontent st)]"
      by (simp add: flush_def)
    then show ?thesis using False
      by (intro exI [of _ "[(lastmsgtype st, msgcontent st)]"]) (simp add: valid_entries_Nil)
  qed
next
  case (Cons l ls)
  show ?case
  proof (cases "parse_entry l")
    case None
    have "fst (read_lines fn (l # ls) st) = fst (read_lines fn ls st)"
      by (simp only: read_lines_Cons_fst line_step_skip [OF None])
    moreover have "valid_entries (l # ls) = valid_entries ls"
      using None by (simp add: valid_entries_Cons)
    ultimately show ?thesis using Cons.IH [OF Cons.prems] by simp
  next
    case (Some e)
    obtain t m where e: "e = (t, m)" by (cases e)
    note pe = Some [unfolded e]
    have ve: "valid_entries (l # ls) = (Some t, m) # valid_entries ls"
      using pe by (simp add: valid_entries_Cons)
    show ?thesis
    proof (cases "lastmsgtype st = None \<or> lastmsgtype st = Some t")
      case True
      define st1 where "st1 = st\<lparr>lastmsgtype := Some t, msgcontent := msgcontent st @ [m]\<rparr>"
      have s1: "fst (line_step fn l st) = st1"
        using True by (simp add: line_step_entry [OF pe] st1_def)
      have inv1: "lastmsgtype st1 = None \<longleftrightarrow> msgcontent st1 = []"
        by (simp add: st1_def)
      from Cons.IH [OF inv1] obtain R where
        R: "flush (fst (read_lines fn ls st1)) = entries st1 @ R"
           "concat (map (\<lambda>(s, ms). map (Pair s) ms) R)
               = map (Pair (lastmsgtype st1)) (msgcontent st1) @ valid_entries ls"
           "\<forall>g \<in> set R. snd g \<noteq> []"
           "distinct_adj (map fst R)"
           "msgcontent st1 \<noteq> [] \<longrightarrow> R \<noteq> [] \<and> fst (hd R) = lastmsgtype st1"
        by blast
      have a: "flush (fst (read_lines fn (l # ls) st)) = entries st @ R"
        using R(1) by (simp only: read_lines_Cons_fst s1) (simp add: st1_def)
      have pre: "map (Pair (lastmsgtype st)) (msgcontent st) = map (Pair (Some t)) (msgcontent st)"
        using True Cons.prems by auto
      have b: "concat (map (\<lambda>(s, ms). map (Pair s) ms) R)
               = map (Pair (lastmsgtype st)) (msgcontent st) @ valid_entries (l # ls)"
        using R(2) by (simp add: st1_def ve pre)
      have c: "msgcontent st \<noteq> [] \<longrightarrow> R \<noteq> [] \<and> fst (hd R) = lastmsgtype st"
        using R(5) True Cons.prems by (auto simp: st1_def)
      from a b R(3,4) c show ?thesis by blast
    next
      case False
      then obtain t' where lt: "lastmsgtype st = Some t'" and tt: "t' \<noteq> t" by auto
      from lt Cons.prems have mc: "msgcontent st \<noteq> []" by simp
      define st1 where "st1 = st\<lparr>lastmsgtype := Some t, msgcontent := [m],
               entries := entries st @ [(lastmsgtype st, msgcontent st)]\<rparr>"
      have s1: "fst (line_step fn l st) = st1"
        using False mc by (simp add: line_step_entry [OF pe] st1_def)
      have inv1: "lastmsgtype st1 = None \<longleftrightarrow> msgcontent st1 = []"
        by (simp add: st1_def)
      from Cons.IH [OF inv1] obtain R where
        R: "flush (fst (read_lines fn ls st1)) = entries st1 @ R"
           "concat (map (\<lambda>(s, ms). map (Pair s) ms) R)
               = map (Pair (lastmsgtype st1)) (msgcontent st1) @ valid_entries ls"
           "\<forall>g \<in> set R. snd g \<noteq> []"
           "distinct_adj (map fst R)"
           "msgcontent st1 \<noteq> [] \<longrightarrow> R \<noteq> [] \<and> fst (hd R) = lastmsgtype st1"
        by blast
      from R(5) have Rne: "R \<noteq> []" and hdR: "fst (hd R) = Some t"
        by (simp_all add: st1_def)
      let ?R = "(lastmsgtype st, msgcontent st) # R"
      have a: "flush (fst (read_lines fn (l # ls) st)) = entries st @ ?R"
        using R(1) by (simp only: read_lines_Cons_fst s1) (simp add: st1_def)
      have b: "concat (map (\<lambda>(s, ms). map (Pair s) ms) ?R)
               = map (Pair (lastmsgtype st)) (msgcontent st) @ valid_entries (l # ls)"
        using R(2) by (simp add: st1_def ve)
      have c: "\<forall>g \<in> set ?R. snd g \<noteq> []"
        using R(3) mc by simp
      have d: "distinct_adj (map fst ?R)"
        using R(4) Rne hdR lt tt by (simp add: distinct_adj_Cons hd_map)
      have e': "msgcontent st \<noteq> [] \<longrightarrow> ?R \<noteq> [] \<and> fst (hd ?R) = lastmsgtype st"
        by simp
      from a b c d e' show ?thesis by blast
    qed
  qed
qed

lemma read_lines_maximal_runs:
  "\<exists>R. flush (fst (read_lines fn ls \<lparr>lastmsgtype = None, msgcontent = [], entries = cur\<rparr>)) = cur @ R
       \<and> maximal_runs (valid_entries ls) R"
  using read_lines_runs [of "\<lparr>lastmsgtype = None, msgcontent = [], entries = cur\<rparr>" fn ls]
  unfolding maximal_runs_def by auto

lemma read_lines_append:
  "read_lines fn (xs @ ys) st =
     (fst (read_lines fn ys (fst (read_lines fn xs st))),
      snd (read_lines fn xs st) @ snd (read_lines fn ys (fst (read_lines fn xs st))))"
  by (induction xs arbitrary: st) (simp_all split: prod.splits)

text \<open>A list has one sequence of maximal runs only.\<close>

lemma maximal_runs_Nil: "maximal_runs xs [] \<longleftrightarrow> xs = []"
  by (auto simp: maximal_runs_def)

lemma maximal_runs_Cons:
  assumes "maximal_runs xs ((s, ms) # gs)"
  shows "ms \<noteq> [] \<and> map (Pair s) ms = takeWhile (\<lambda>e. fst e = s) xs
       \<and> maximal_runs (dropWhile (\<lambda>e. fst e = s) xs) gs"
proof -
  define rest where "rest = concat (map (\<lambda>(s, ms). map (Pair s) ms) gs)"
  from assms have xs: "xs = map (Pair s) ms @ rest" and ne: "ms \<noteq> []"
    and g: "\<forall>g \<in> set gs. snd g \<noteq> []" and d: "distinct_adj (s # map fst gs)"
    by (auto simp: maximal_runs_def rest_def)
  have hd: "rest = [] \<or> fst (hd rest) \<noteq> s"
  proof (cases gs)
    case Nil
    then show ?thesis by (simp add: rest_def)
  next
    case (Cons g gs')
    obtain s' ms' where g': "g = (s', ms')" by (cases g)
    with Cons g have "ms' \<noteq> []" by auto
    moreover from d Cons g' have "s \<noteq> s'" by simp
    ultimately show ?thesis using Cons g' by (cases ms') (auto simp: rest_def)
  qed
  have tk: "takeWhile (\<lambda>e. fst e = s) (map (Pair s) zs @ rest)
              = map (Pair s) zs @ takeWhile (\<lambda>e. fst e = s) rest" for zs
    by (induction zs) simp_all
  have dk: "dropWhile (\<lambda>e. fst e = s) (map (Pair s) zs @ rest)
              = dropWhile (\<lambda>e. fst e = s) rest" for zs
    by (induction zs) simp_all
  have tw: "takeWhile (\<lambda>e. fst e = s) rest = []"
    using hd by (cases rest) auto
  have dw: "dropWhile (\<lambda>e. fst e = s) rest = rest"
    using hd by (cases rest) auto
  have a: "takeWhile (\<lambda>e. fst e = s) xs = map (Pair s) ms"
    unfolding xs by (simp only: tk tw append_Nil2)
  have b: "dropWhile (\<lambda>e. fst e = s) xs = rest"
    unfolding xs by (simp only: dk dw)
  from d have "distinct_adj (map fst gs)" by (simp add: distinct_adj_ConsD)
  with g b have "maximal_runs (dropWhile (\<lambda>e. fst e = s) xs) gs"
    by (simp add: maximal_runs_def rest_def)
  with ne a show ?thesis by simp
qed

lemma maximal_runs_head:
  assumes "maximal_runs xs ((s, ms) # gs)"
  shows "xs \<noteq> [] \<and> fst (hd xs) = s"
  using assms by (cases ms) (auto simp: maximal_runs_def)

lemma maximal_runs_unique:
  "maximal_runs xs gs \<Longrightarrow> maximal_runs xs gs' \<Longrightarrow> gs = gs'"
proof (induction gs arbitrary: xs gs')
  case Nil
  then have "xs = []" by (simp add: maximal_runs_Nil)
  with Nil(2) show ?case
    by (cases gs') (auto dest: maximal_runs_head)
next
  case (Cons g gs)
  obtain s ms where g: "g = (s, ms)" by (cases g)
  from maximal_runs_head [OF Cons.prems(1) [unfolded g]] have xs: "xs \<noteq> []" "fst (hd xs) = s" by auto
  from xs Cons.prems(2) obtain g' gs2 where gs': "gs' = g' # gs2"
    by (cases gs') (auto simp: maximal_runs_Nil)
  obtain s' ms' where g': "g' = (s', ms')" by (cases g')
  from maximal_runs_head [OF Cons.prems(2) [unfolded gs' g']] xs have ss: "s' = s" by simp
  note a = maximal_runs_Cons [OF Cons.prems(1) [unfolded g]]
  note b = maximal_runs_Cons [OF Cons.prems(2) [unfolded gs' g' ss]]
  from a b have "map (Pair s) ms = map (Pair s) ms'" by simp
  then have "ms = ms'" by (simp add: inj_map_eq_map inj_on_def)
  moreover from a b Cons.IH have "gs = gs2" by blast
  ultimately show ?case by (simp add: g gs' g' ss)
qed

lemma malformed_not_parsed:
  assumes "first_token l \<notin> log_levels \<or> CHR '' '' \<notin> set l"
  shows "parse_entry l = None"
proof (cases "parse_entry l")
  case None
  then show ?thesis .
next
  case (Some e)
  obtain t m where "e = (t, m)" by (cases e)
  with Some have p: "parse_entry l = Some (t, m)" by simp
  from parse_entry_first_token [OF p] parse_entry_Some [OF p] assms show ?thesis by auto
qed

lemma read_lines_malformed_event:
  assumes "l \<noteq> []" and "parse_entry l = None"
  shows "Writemsg_malformed fn l \<in> set (snd (read_lines fn (xs @ l # ys) st))"
proof -
  have "snd (read_lines fn (l # ys) st') = Writemsg_malformed fn l # snd (read_lines fn ys st')" for st'
    by (simp only: read_lines_Cons_snd line_step_malformed [OF assms]) simp
  then show ?thesis by (simp add: read_lines_append)
qed

lemma valid_entries_drop:
  "parse_entry l = None \<Longrightarrow> valid_entries (xs @ l # ys) = valid_entries (xs @ ys)"
  by (simp add: valid_entries_append valid_entries_Cons)

subsection \<open>Files and the directory\<close>

lemma visited_append: "visited (xs @ ys) = visited xs @ visited ys"
  by (induction xs rule: visited.induct) simp_all

lemma opened_append: "opened (xs @ ys) = opened xs @ opened ys"
  by (induction xs rule: opened.induct) simp_all

lemma unlinked_append: "unlinked (xs @ ys) = unlinked xs @ unlinked ys"
  by (induction xs rule: unlinked.induct) simp_all

lemma line_step_events:
  "snd (line_step fn l st) = [] \<or> snd (line_step fn l st) = [Writemsg_malformed fn l]"
  by (auto simp: line_step_def Let_def split: option.splits)

lemma read_lines_events:
  "visited (snd (read_lines fn ls st)) = [] \<and> opened (snd (read_lines fn ls st)) = []
   \<and> unlinked (snd (read_lines fn ls st)) = []"
proof (induction ls arbitrary: st)
  case Nil
  show ?case by simp
next
  case (Cons l ls)
  from line_step_events [of fn l st] Cons [of "fst (line_step fn l st)"] show ?case
    by (auto simp: read_lines_Cons_snd visited_append opened_append unlinked_append
          simp del: read_lines.simps)
qed

lemma process_file_invalid:
  "name \<notin> phases \<Longrightarrow>
     process_file phases path d name le = Inr (le, [Writemsg_invalid_file (os_path_join path name)])"
  by (simp add: process_file_def)

lemma process_file_valid:
  assumes "name \<in> phases" and "io_open d name = Some text"
  shows "process_file phases path d name le =
     Inr (le(name \<mapsto> flush (fst (read_lines (os_path_join path name) (split_on (CHR 0x0A) text)
                  \<lparr>lastmsgtype = None, msgcontent = [],
                   entries = (case le name of None \<Rightarrow> [] | Some gs \<Rightarrow> gs)\<rparr>))),
          Io_open (os_path_join path name) #
            snd (read_lines (os_path_join path name) (split_on (CHR 0x0A) text)
                  \<lparr>lastmsgtype = None, msgcontent = [],
                   entries = (case le name of None \<Rightarrow> [] | Some gs \<Rightarrow> gs)\<rparr>))"
  using assms by (simp add: process_file_def Let_def split: prod.splits)

lemma process_file_other:
  "process_file phases path d f le = Inr (le', evs) \<Longrightarrow> n \<noteq> f \<or> n \<notin> phases \<Longrightarrow> le' n = le n"
  by (auto simp: process_file_def Let_def split: if_splits option.splits prod.splits)

lemma process_file_total:
  "f \<in> phases \<longrightarrow> io_open d f \<noteq> None \<Longrightarrow> \<exists>le' evs. process_file phases path d f le = Inr (le', evs)"
  by (auto simp: process_file_def Let_def split: if_splits option.splits prod.splits)

lemma process_file_visited:
  assumes "process_file phases path d f le = Inr (le', evs)"
  shows "visited evs = [os_path_join path f]
     \<and> opened evs = (if f \<in> phases then [os_path_join path f] else [])
     \<and> unlinked evs = []"
proof (cases "f \<in> phases")
  case False
  with assms show ?thesis by (auto simp: process_file_invalid)
next
  case True
  with assms obtain content where t: "io_open d f = Some content"
    by (auto simp: process_file_def Let_def split: option.splits)
  note r = read_lines_events [of "os_path_join path f" "split_on (CHR 0x0A) content"
      "\<lparr>lastmsgtype = None, msgcontent = [], entries = (case le f of None \<Rightarrow> [] | Some gs \<Rightarrow> gs)\<rparr>"]
  from assms [unfolded process_file_valid [OF True t]] True r
  show ?thesis by auto
qed

lemma process_files_total:
  "\<forall>n \<in> set ns. n \<in> phases \<longrightarrow> io_open d n \<noteq> None \<Longrightarrow>
     \<exists>le' evs. process_files phases path d ns le = Inr (le', evs)"
proof (induction ns arbitrary: le)
  case Nil
  show ?case by simp
next
  case (Cons f fs)
  from Cons.prems have "f \<in> phases \<longrightarrow> io_open d f \<noteq> None" by simp
  from process_file_total [OF this] obtain le1 evs1
    where a: "process_file phases path d f le = Inr (le1, evs1)" by blast
  from Cons.prems have "\<forall>n \<in> set fs. n \<in> phases \<longrightarrow> io_open d n \<noteq> None" by simp
  from Cons.IH [OF this] obtain le2 evs2
    where b: "process_files phases path d fs le1 = Inr (le2, evs2)" by blast
  from a b show ?case by simp
qed

lemma process_files_Cons_Inr:
  assumes "process_files phases path d (f # fs) le = Inr (le', evs)"
  obtains le1 evs1 evs2 where "process_file phases path d f le = Inr (le1, evs1)"
    and "process_files phases path d fs le1 = Inr (le', evs2)" and "evs = evs1 @ evs2"
  using assms by (auto split: sum.splits prod.splits)

lemma process_files_other:
  "process_files phases path d ns le = Inr (le', evs) \<Longrightarrow> n \<notin> set ns \<or> n \<notin> phases \<Longrightarrow> le' n = le n"
proof (induction ns arbitrary: le evs)
  case Nil
  then show ?case by simp
next
  case (Cons f fs)
  from Cons.prems(1) obtain le1 evs1 evs2 where
    a: "process_file phases path d f le = Inr (le1, evs1)" and
    b: "process_files phases path d fs le1 = Inr (le', evs2)"
    by (rule process_files_Cons_Inr)
  from Cons.prems(2) have "n \<noteq> f \<or> n \<notin> phases" "n \<notin> set fs \<or> n \<notin> phases" by auto
  with process_file_other [OF a] Cons.IH [OF b] show ?case by simp
qed

lemma process_files_one:
  assumes "distinct ns" and "n \<in> set ns" and "n \<in> phases" and "io_open d n = Some text"
    and "process_files phases path d ns le = Inr (le', evs)"
  shows "le' n = Some (flush (fst (read_lines (os_path_join path n) (split_on (CHR 0x0A) text)
                  \<lparr>lastmsgtype = None, msgcontent = [],
                   entries = (case le n of None \<Rightarrow> [] | Some gs \<Rightarrow> gs)\<rparr>)))
       \<and> set (snd (read_lines (os_path_join path n) (split_on (CHR 0x0A) text)
                  \<lparr>lastmsgtype = None, msgcontent = [],
                   entries = (case le n of None \<Rightarrow> [] | Some gs \<Rightarrow> gs)\<rparr>)) \<subseteq> set evs"
  using assms(1,2,5)
proof (induction ns arbitrary: le evs)
  case Nil
  then show ?case by simp
next
  case (Cons f fs)
  from Cons.prems(3) obtain le1 evs1 evs2 where
    a: "process_file phases path d f le = Inr (le1, evs1)" and
    b: "process_files phases path d fs le1 = Inr (le', evs2)" and
    e: "evs = evs1 @ evs2"
    by (rule process_files_Cons_Inr)
  show ?case
  proof (cases "n = f")
    case True
    with Cons.prems(1) have "n \<notin> set fs" by simp
    with process_files_other [OF b] have k: "le' n = le1 n" by simp
    from a have "process_file phases path d n le = Inr (le1, evs1)" by (simp only: True)
    then have "le1 n = Some (flush (fst (read_lines (os_path_join path n) (split_on (CHR 0x0A) text)
                  \<lparr>lastmsgtype = None, msgcontent = [],
                   entries = (case le n of None \<Rightarrow> [] | Some gs \<Rightarrow> gs)\<rparr>)))"
      and "evs1 = Io_open (os_path_join path n) #
            snd (read_lines (os_path_join path n) (split_on (CHR 0x0A) text)
                  \<lparr>lastmsgtype = None, msgcontent = [],
                   entries = (case le n of None \<Rightarrow> [] | Some gs \<Rightarrow> gs)\<rparr>)"
      unfolding process_file_valid [OF assms(3,4)] by auto
    with k e show ?thesis by auto
  next
    case False
    with Cons.prems have d: "distinct fs" and m: "n \<in> set fs" by auto
    from process_file_other [OF a, of n] False have "le1 n = le n" by simp
    with Cons.IH [OF d m b] e show ?thesis by auto
  qed
qed

lemma process_files_invalid_event:
  "process_files phases path d ns le = Inr (le', evs) \<Longrightarrow> n \<in> set ns \<Longrightarrow> n \<notin> phases \<Longrightarrow>
     Writemsg_invalid_file (os_path_join path n) \<in> set evs"
proof (induction ns arbitrary: le evs)
  case Nil
  then show ?case by simp
next
  case (Cons f fs)
  from Cons.prems(1) obtain le1 evs1 evs2 where
    a: "process_file phases path d f le = Inr (le1, evs1)" and
    b: "process_files phases path d fs le1 = Inr (le', evs2)" and
    e: "evs = evs1 @ evs2"
    by (rule process_files_Cons_Inr)
  show ?case
  proof (cases "n = f")
    case True
    with a Cons.prems(3) show ?thesis by (auto simp: process_file_invalid e)
  next
    case False
    with Cons.prems have "n \<in> set fs" by simp
    from Cons.IH [OF b this Cons.prems(3)] e show ?thesis by simp
  qed
qed

lemma process_files_visited:
  "process_files phases path d ns le = Inr (le', evs) \<Longrightarrow>
     visited evs = map (os_path_join path) ns
     \<and> opened evs = map (os_path_join path) (filter (\<lambda>n. n \<in> phases) ns)
     \<and> unlinked evs = []"
proof (induction ns arbitrary: le evs)
  case Nil
  then show ?case by simp
next
  case (Cons f fs)
  from Cons.prems(1) obtain le1 evs1 evs2 where
    a: "process_file phases path d f le = Inr (le1, evs1)" and
    b: "process_files phases path d fs le1 = Inr (le', evs2)" and
    e: "evs = evs1 @ evs2"
    by (rule process_files_Cons_Inr)
  from process_file_visited [OF a] Cons.IH [OF b] e show ?case
    by (simp add: visited_append opened_append unlinked_append)
qed



lemma unlink_all_events:
  "snd (unlink_all path ns d) = map (\<lambda>n. Os_unlink (os_path_join path n)) ns"
  by (induction ns arbitrary: d) (simp_all add: Let_def case_prod_unfold)


lemma visited_unlinks: "visited (map (\<lambda>n. Os_unlink (g n)) ns) = [] \<and> opened (map (\<lambda>n. Os_unlink (g n)) ns) = []"
  by (induction ns) simp_all

lemma os_unlink_files:
  "files (case os_unlink f d of Inl e \<Rightarrow> d | Inr d' \<Rightarrow> d') n =
     (if n = f \<and> (\<exists>x. files d f = Some x \<and> removable x) then None else files d n)"
  by (auto simp: os_unlink_def split: option.splits)

lemma unlink_all_files:
  "files (fst (unlink_all path ns d)) n =
     (if n \<in> set ns \<and> (\<exists>x. files d n = Some x \<and> removable x) then None else files d n)"
proof (induction ns arbitrary: d)
  case Nil
  show ?case by simp
next
  case (Cons f fs)
  let ?d1 = "case os_unlink f d of Inl e \<Rightarrow> d | Inr d' \<Rightarrow> d'"
  have "files (fst (unlink_all path (f # fs) d)) n = files (fst (unlink_all path fs ?d1)) n"
    by (simp add: Let_def split: prod.splits)
  also have "\<dots> = (if n \<in> set fs \<and> (\<exists>x. files ?d1 n = Some x \<and> removable x) then None else files ?d1 n)"
    by (rule Cons.IH)
  also have "\<dots> = (if n \<in> set (f # fs) \<and> (\<exists>x. files d n = Some x \<and> removable x) then None else files d n)"
    by (auto simp: os_unlink_files)
  finally show ?case .
qed

lemma collect_ebuild_messages_listing:
  assumes "listdir d = Some listing"
  shows "collect_ebuild_messages phases path d =
     (case process_files phases path d (rev listing) Map.empty of
        Inl e \<Rightarrow> Inl e
      | Inr (le, evs) \<Rightarrow>
          Inr (le, fst (unlink_all path (rev listing) d),
               evs @ map (\<lambda>n. Os_unlink (os_path_join path n)) (rev listing)))"
  using assms
  by (cases "listing = []")
     (simp_all add: collect_ebuild_messages_def Let_def unlink_all_events case_prod_unfold
        split: sum.splits)

lemma collect_ebuild_messages_returns:
  assumes "listdir d = Some listing"
    and "\<forall>n \<in> set listing. n \<in> phases \<longrightarrow> io_open d n \<noteq> None"
  obtains le evs where "process_files phases path d (rev listing) Map.empty = Inr (le, evs)"
    and "collect_ebuild_messages phases path d =
           Inr (le, fst (unlink_all path (rev listing) d),
                evs @ map (\<lambda>n. Os_unlink (os_path_join path n)) (rev listing))"
proof -
  from assms(2) have "\<forall>n \<in> set (rev listing). n \<in> phases \<longrightarrow> io_open d n \<noteq> None" by simp
  from process_files_total [OF this] obtain le evs
    where p: "process_files phases path d (rev listing) Map.empty = Inr (le, evs)" by blast
  with collect_ebuild_messages_listing [OF assms(1), of phases path] that show ?thesis by simp
qed

text \<open>The definitions that a concrete call unfolds.\<close>

lemmas eval_simps = collect_ebuild_messages_def process_file_def io_open_def os_path_join_def
     line_step_def parse_entry_def split_pair_def log_levels_def flush_def os_unlink_def Let_def

subsection \<open>The claims about the parser\<close>

text \<open>
  Claim C1. For a listed file that is named after a valid phase, the groups that
  \<^verbatim>\<open>collect_ebuild_messages\<close> returns for the phase are the maximal runs of the
  file's valid lines: consecutive lines of one level form one group, in the order in
  which they appear. The call returns when every listed file with a phase name can be
  opened. The witness is the file of the claim: \<^verbatim>\<open>INFO a\<close>, \<^verbatim>\<open>INFO b\<close>,
  \<^verbatim>\<open>WARN c\<close>, \<^verbatim>\<open>WARN d\<close>, \<^verbatim>\<open>INFO e\<close> give
  \<^verbatim>\<open>[(INFO,[a,b]), (WARN,[c,d]), (INFO,[e])]\<close>.
\<close>

theorem collect_ebuild_messages_groups:
  assumes "listdir d = Some listing" and "distinct listing"
    and "\<forall>n \<in> set listing. n \<in> phases \<longrightarrow> io_open d n \<noteq> None"
    and "name \<in> set listing" and "name \<in> phases" and "io_open d name = Some content"
  shows "\<exists>le d' evs gs. collect_ebuild_messages phases path d = Inr (le, d', evs)
           \<and> le name = Some gs
           \<and> maximal_runs (valid_entries (split_on (CHR 0x0A) content)) gs"
proof -
  from collect_ebuild_messages_returns [OF assms(1,3), of path] obtain le evs where
    p: "process_files phases path d (rev listing) Map.empty = Inr (le, evs)" and
    c: "collect_ebuild_messages phases path d =
           Inr (le, fst (unlink_all path (rev listing) d),
                evs @ map (\<lambda>n. Os_unlink (os_path_join path n)) (rev listing))"
    by blast
  from assms(2,4) have "distinct (rev listing)" "name \<in> set (rev listing)" by simp_all
  from process_files_one [OF this assms(5,6) p]
  have l: "le name = Some (flush (fst (read_lines (os_path_join path name) (split_on (CHR 0x0A) content)
                  \<lparr>lastmsgtype = None, msgcontent = [], entries = []\<rparr>)))"
    by simp
  from read_lines_maximal_runs [of "os_path_join path name" "split_on (CHR 0x0A) content" "[]"]
  obtain R where "flush (fst (read_lines (os_path_join path name) (split_on (CHR 0x0A) content)
                  \<lparr>lastmsgtype = None, msgcontent = [], entries = []\<rparr>)) = R"
     and "maximal_runs (valid_entries (split_on (CHR 0x0A) content)) R"
    by auto
  with l c show ?thesis by auto
qed

theorem collect_ebuild_messages_groups_witness:
  "collect_ebuild_messages {''compile'', ''install''} ''logs''
     \<lparr>listdir = Some [''compile''],
      files = [''compile'' \<mapsto>
        \<lparr>data = Some (''INFO a'' @ CHR 0x0A # ''INFO b'' @ CHR 0x0A # ''WARN c'' @ CHR 0x0A #
                      ''WARN d'' @ CHR 0x0A # ''INFO e'' @ [CHR 0x0A]),
         removable = True\<rparr>]\<rparr>
   = Inr ([''compile'' \<mapsto>
            [(Some ''INFO'', [''a'', ''b'']), (Some ''WARN'', [''c'', ''d'']), (Some ''INFO'', [''e''])]],
          \<lparr>listdir = Some [], files = Map.empty\<rparr>,
          [Io_open ''logs/compile'', Os_unlink ''logs/compile''])
   \<and> maximal_runs
        (valid_entries (split_on (CHR 0x0A)
           (''INFO a'' @ CHR 0x0A # ''INFO b'' @ CHR 0x0A # ''WARN c'' @ CHR 0x0A #
            ''WARN d'' @ CHR 0x0A # ''INFO e'' @ [CHR 0x0A])))
        [(Some ''INFO'', [''a'', ''b'']), (Some ''WARN'', [''c'', ''d'']), (Some ''INFO'', [''e''])]"
proof -
  let ?content = "''INFO a'' @ CHR 0x0A # ''INFO b'' @ CHR 0x0A # ''WARN c'' @ CHR 0x0A #
                      ''WARN d'' @ CHR 0x0A # ''INFO e'' @ [CHR 0x0A]"
  let ?d = "\<lparr>listdir = Some [''compile''],
             files = [''compile'' \<mapsto> \<lparr>data = Some ?content, removable = True\<rparr>]\<rparr>"
  let ?phases = "{''compile'', ''install''}"
  have ev: "collect_ebuild_messages ?phases ''logs'' ?d
     = Inr ([''compile'' \<mapsto>
            [(Some ''INFO'', [''a'', ''b'']), (Some ''WARN'', [''c'', ''d'']), (Some ''INFO'', [''e''])]],
          \<lparr>listdir = Some [], files = Map.empty\<rparr>,
          [Io_open ''logs/compile'', Os_unlink ''logs/compile''])"
    by (simp add: eval_simps)
  have h1: "listdir ?d = Some [''compile'']" by simp
  have h2: "distinct [''compile'']" by simp
  have h3: "\<forall>n \<in> set [''compile'']. n \<in> ?phases \<longrightarrow> io_open ?d n \<noteq> None"
    by (simp add: io_open_def)
  have h4: "''compile'' \<in> set [''compile'']" by simp
  have h5: "''compile'' \<in> ?phases" by simp
  have h6: "io_open ?d ''compile'' = Some ?content" by (simp add: io_open_def)
  from collect_ebuild_messages_groups [OF h1 h2 h3 h4 h5 h6, of "''logs''"] obtain le d' evs gs where
    "collect_ebuild_messages ?phases ''logs'' ?d = Inr (le, d', evs)"
    "le ''compile'' = Some gs"
    "maximal_runs (valid_entries (split_on (CHR 0x0A) ?content)) gs"
    by blast
  with ev have "maximal_runs (valid_entries (split_on (CHR 0x0A) ?content))
        [(Some ''INFO'', [''a'', ''b'']), (Some ''WARN'', [''c'', ''d'']), (Some ''INFO'', [''e''])]"
    by auto
  with ev show ?thesis by (intro conjI)
qed

text \<open>
  Claim C5, as amended. A listed file whose name is not a phase is rejected: its turn
  in the loop emits the diagnostic and nothing else, the files that are opened are the
  listed phase names only, and the returned mapping has no entry for it. It is not left
  alone, though: the cleanup calls \<^verbatim>\<open>os.unlink\<close> on it as on every listed name, so
  after the call the file is gone unless that deletion failed.
\<close>

theorem invalid_phase_file_rejected:
  assumes "listdir d = Some listing"
    and "\<forall>n \<in> set listing. n \<in> phases \<longrightarrow> io_open d n \<noteq> None"
    and "name \<in> set listing" and "name \<notin> phases"
  shows "process_file phases path d name le0 = Inr (le0, [Writemsg_invalid_file (os_path_join path name)])
       \<and> (\<exists>le d' evs. collect_ebuild_messages phases path d = Inr (le, d', evs)
           \<and> Writemsg_invalid_file (os_path_join path name) \<in> set evs
           \<and> opened evs = map (os_path_join path) (filter (\<lambda>n. n \<in> phases) (rev listing))
           \<and> le name = None
           \<and> Os_unlink (os_path_join path name) \<in> set evs
           \<and> files d' name = (case files d name of None \<Rightarrow> None
                                | Some f \<Rightarrow> if removable f then None else Some f))"
proof -
  from collect_ebuild_messages_returns [OF assms(1,2), of path] obtain le evs where
    p: "process_files phases path d (rev listing) Map.empty = Inr (le, evs)" and
    c: "collect_ebuild_messages phases path d =
           Inr (le, fst (unlink_all path (rev listing) d),
                evs @ map (\<lambda>n. Os_unlink (os_path_join path n)) (rev listing))"
    by blast
  from assms(3) have m: "name \<in> set (rev listing)" by simp
  from process_files_invalid_event [OF p m assms(4)]
  have a: "Writemsg_invalid_file (os_path_join path name)
             \<in> set (evs @ map (\<lambda>n. Os_unlink (os_path_join path n)) (rev listing))"
    by simp
  from process_files_visited [OF p]
  have b: "opened (evs @ map (\<lambda>n. Os_unlink (os_path_join path n)) (rev listing))
           = map (os_path_join path) (filter (\<lambda>n. n \<in> phases) (rev listing))"
    by (simp add: opened_append visited_unlinks)
  from process_files_other [OF p, of name] assms(4) have e: "le name = None" by simp
  from assms(3) have u: "Os_unlink (os_path_join path name)
             \<in> set (evs @ map (\<lambda>n. Os_unlink (os_path_join path n)) (rev listing))"
    by simp
  have f: "files (fst (unlink_all path (rev listing) d)) name
             = (case files d name of None \<Rightarrow> None | Some f \<Rightarrow> if removable f then None else Some f)"
    using assms(3) by (auto simp: unlink_all_files split: option.splits)
  from c a b e u f process_file_invalid [OF assms(4), of path d le0] show ?thesis by blast
qed

theorem invalid_phase_file_rejected_witness:
  "collect_ebuild_messages {''compile'', ''install''} ''logs''
     \<lparr>listdir = Some [''compile'', ''not_a_phase''],
      files = [''compile'' \<mapsto> \<lparr>data = Some ''INFO a'', removable = True\<rparr>,
               ''not_a_phase'' \<mapsto> \<lparr>data = Some ''INFO b'', removable = True\<rparr>]\<rparr>
   = Inr ([''compile'' \<mapsto> [(Some ''INFO'', [''a''])]],
          \<lparr>listdir = Some [], files = Map.empty\<rparr>,
          [Writemsg_invalid_file ''logs/not_a_phase'', Io_open ''logs/compile'',
           Os_unlink ''logs/not_a_phase'', Os_unlink ''logs/compile''])
   \<and> process_file {''compile'', ''install''} ''logs''
       \<lparr>listdir = Some [''compile'', ''not_a_phase''],
        files = [''compile'' \<mapsto> \<lparr>data = Some ''INFO a'', removable = True\<rparr>,
                 ''not_a_phase'' \<mapsto> \<lparr>data = Some ''INFO b'', removable = True\<rparr>]\<rparr>
       ''not_a_phase'' Map.empty
     = Inr (Map.empty, [Writemsg_invalid_file (os_path_join ''logs'' ''not_a_phase'')])
   \<and> opened [Writemsg_invalid_file ''logs/not_a_phase'', Io_open ''logs/compile'',
           Os_unlink ''logs/not_a_phase'', Os_unlink ''logs/compile'']
     = map (os_path_join ''logs'') (filter (\<lambda>n. n \<in> {''compile'', ''install''}) (rev [''compile'', ''not_a_phase'']))
   \<and> files \<lparr>listdir = Some [], files = Map.empty\<rparr> ''not_a_phase'' = None"
proof -
  let ?d = "\<lparr>listdir = Some [''compile'', ''not_a_phase''],
      files = [''compile'' \<mapsto> \<lparr>data = Some ''INFO a'', removable = True\<rparr>,
               ''not_a_phase'' \<mapsto> \<lparr>data = Some ''INFO b'', removable = True\<rparr>]\<rparr>"
  let ?phases = "{''compile'', ''install''}"
  let ?evs = "[Writemsg_invalid_file ''logs/not_a_phase'', Io_open ''logs/compile'',
           Os_unlink ''logs/not_a_phase'', Os_unlink ''logs/compile'']"
  have ev: "collect_ebuild_messages ?phases ''logs'' ?d
   = Inr ([''compile'' \<mapsto> [(Some ''INFO'', [''a''])]],
          \<lparr>listdir = Some [], files = Map.empty\<rparr>, ?evs)"
    by (simp add: eval_simps)
  have h1: "listdir ?d = Some [''compile'', ''not_a_phase'']" by simp
  have h2: "\<forall>n \<in> set [''compile'', ''not_a_phase'']. n \<in> ?phases \<longrightarrow> io_open ?d n \<noteq> None"
    by (simp add: io_open_def)
  have h3: "''not_a_phase'' \<in> set [''compile'', ''not_a_phase'']" by simp
  have h4: "''not_a_phase'' \<notin> ?phases" by simp
  from invalid_phase_file_rejected [OF h1 h2 h3 h4, of "''logs''" Map.empty] obtain le d' evs where
    p: "process_file ?phases ''logs'' ?d ''not_a_phase'' Map.empty
          = Inr (Map.empty, [Writemsg_invalid_file (os_path_join ''logs'' ''not_a_phase'')])" and
    c: "collect_ebuild_messages ?phases ''logs'' ?d = Inr (le, d', evs)" and
    o: "opened evs = map (os_path_join ''logs'') (filter (\<lambda>n. n \<in> ?phases) (rev [''compile'', ''not_a_phase'']))" and
    f: "files d' ''not_a_phase'' = (case files ?d ''not_a_phase'' of None \<Rightarrow> None
                                | Some f \<Rightarrow> if removable f then None else Some f)"
    by blast
  from c ev have evs: "evs = ?evs" and d': "d' = \<lparr>listdir = Some [], files = Map.empty\<rparr>" by simp_all
  from o have a: "opened ?evs = map (os_path_join ''logs'') (filter (\<lambda>n. n \<in> ?phases) (rev [''compile'', ''not_a_phase'']))"
    by (simp only: evs)
  from f have b: "files \<lparr>listdir = Some [], files = Map.empty\<rparr> ''not_a_phase'' = None"
    by (simp add: d')
  from ev p a b show ?thesis by (intro conjI)
qed

text \<open>
  Claim C5 as stated fails: a removable file \<^verbatim>\<open>not_a_phase\<close> is reported and then
  deleted; the directory is empty after the call.
\<close>

theorem invalid_phase_file_untouched_counterexample:
  "collect_ebuild_messages {''compile'', ''install''} ''logs''
     \<lparr>listdir = Some [''not_a_phase''],
      files = [''not_a_phase'' \<mapsto> \<lparr>data = Some ''INFO a'', removable = True\<rparr>]\<rparr>
   = Inr (Map.empty, \<lparr>listdir = Some [], files = Map.empty\<rparr>,
          [Writemsg_invalid_file ''logs/not_a_phase'', Os_unlink ''logs/not_a_phase''])"
  by (simp add: eval_simps)




text \<open>
  Claim C7. In a phase log file, a non-empty line whose first whitespace-delimited
  token is not a log level, or that has no space at all, is reported as malformed and
  passed over: the groups of the phase are the maximal runs of the valid lines before
  and after it, as if the line were not there. (An empty line is passed over without a
  diagnostic.)
\<close>

theorem malformed_line_skipped:
  assumes "listdir d = Some listing" and "distinct listing"
    and "\<forall>n \<in> set listing. n \<in> phases \<longrightarrow> io_open d n \<noteq> None"
    and "name \<in> set listing" and "name \<in> phases" and "io_open d name = Some content"
    and "split_on (CHR 0x0A) content = xs @ l # ys"
    and "l \<noteq> []" and "first_token l \<notin> log_levels \<or> CHR '' '' \<notin> set l"
  shows "\<exists>le d' evs gs. collect_ebuild_messages phases path d = Inr (le, d', evs)
           \<and> Writemsg_malformed (os_path_join path name) l \<in> set evs
           \<and> le name = Some gs
           \<and> maximal_runs (valid_entries (xs @ ys)) gs"
proof -
  from malformed_not_parsed [OF assms(9)] have np: "parse_entry l = None" .
  from collect_ebuild_messages_returns [OF assms(1,3), of path] obtain le evs where
    p: "process_files phases path d (rev listing) Map.empty = Inr (le, evs)" and
    c: "collect_ebuild_messages phases path d =
           Inr (le, fst (unlink_all path (rev listing) d),
                evs @ map (\<lambda>n. Os_unlink (os_path_join path n)) (rev listing))"
    by blast
  from assms(2,4) have "distinct (rev listing)" "name \<in> set (rev listing)" by simp_all
  from process_files_one [OF this assms(5,6) p]
  have l: "le name = Some (flush (fst (read_lines (os_path_join path name) (xs @ l # ys)
                  \<lparr>lastmsgtype = None, msgcontent = [], entries = []\<rparr>)))"
    and e: "set (snd (read_lines (os_path_join path name) (xs @ l # ys)
                  \<lparr>lastmsgtype = None, msgcontent = [], entries = []\<rparr>)) \<subseteq> set evs"
    by (simp_all add: assms(7))
  from read_lines_malformed_event [OF assms(8) np] e
  have ev: "Writemsg_malformed (os_path_join path name) l \<in> set evs" by blast
  from read_lines_maximal_runs [of "os_path_join path name" "xs @ l # ys" "[]"]
  obtain R where "flush (fst (read_lines (os_path_join path name) (xs @ l # ys)
                  \<lparr>lastmsgtype = None, msgcontent = [], entries = []\<rparr>)) = R"
     and "maximal_runs (valid_entries (xs @ l # ys)) R"
    by auto
  with l c ev show ?thesis by (auto simp: valid_entries_drop [OF np])
qed

theorem malformed_line_skipped_witness:
  "split_on (CHR 0x0A) (''INFO a'' @ CHR 0x0A # ''BOGUS x'' @ CHR 0x0A # ''INFO b'' @ CHR 0x0A # ''WARN c'' @ [CHR 0x0A])
     = [''INFO a''] @ ''BOGUS x'' # [''INFO b'', ''WARN c'', []]
   \<and> first_token ''BOGUS x'' = ''BOGUS''
   \<and> ''BOGUS'' \<notin> log_levels
   \<and> collect_ebuild_messages {''compile'', ''install''} ''logs''
       \<lparr>listdir = Some [''compile''],
        files = [''compile'' \<mapsto>
          \<lparr>data = Some (''INFO a'' @ CHR 0x0A # ''BOGUS x'' @ CHR 0x0A # ''INFO b'' @ CHR 0x0A # ''WARN c'' @ [CHR 0x0A]),
           removable = True\<rparr>]\<rparr>
     = Inr ([''compile'' \<mapsto> [(Some ''INFO'', [''a'', ''b'']), (Some ''WARN'', [''c''])]],
            \<lparr>listdir = Some [], files = Map.empty\<rparr>,
            [Io_open ''logs/compile'', Writemsg_malformed ''logs/compile'' ''BOGUS x'',
             Os_unlink ''logs/compile''])
   \<and> maximal_runs (valid_entries ([''INFO a''] @ [''INFO b'', ''WARN c'', []]))
        [(Some ''INFO'', [''a'', ''b'']), (Some ''WARN'', [''c''])]"
proof -
  let ?content = "''INFO a'' @ CHR 0x0A # ''BOGUS x'' @ CHR 0x0A # ''INFO b'' @ CHR 0x0A # ''WARN c'' @ [CHR 0x0A]"
  let ?d = "\<lparr>listdir = Some [''compile''],
             files = [''compile'' \<mapsto> \<lparr>data = Some ?content, removable = True\<rparr>]\<rparr>"
  let ?phases = "{''compile'', ''install''}"
  have ev: "collect_ebuild_messages ?phases ''logs'' ?d
     = Inr ([''compile'' \<mapsto> [(Some ''INFO'', [''a'', ''b'']), (Some ''WARN'', [''c''])]],
            \<lparr>listdir = Some [], files = Map.empty\<rparr>,
            [Io_open ''logs/compile'', Writemsg_malformed ''logs/compile'' ''BOGUS x'',
             Os_unlink ''logs/compile''])"
    by (simp add: eval_simps)
  have h1: "listdir ?d = Some [''compile'']" by simp
  have h2: "distinct [''compile'']" by simp
  have h3: "\<forall>n \<in> set [''compile'']. n \<in> ?phases \<longrightarrow> io_open ?d n \<noteq> None"
    by (simp add: io_open_def)
  have h4: "''compile'' \<in> set [''compile'']" by simp
  have h5: "''compile'' \<in> ?phases" by simp
  have h6: "io_open ?d ''compile'' = Some ?content" by (simp add: io_open_def)
  have h7: "split_on (CHR 0x0A) ?content = [''INFO a''] @ ''BOGUS x'' # [''INFO b'', ''WARN c'', []]"
    by simp
  have h8: "''BOGUS x'' \<noteq> []" by simp
  have ft: "first_token ''BOGUS x'' = ''BOGUS''"
    by (simp add: first_token_def whitespace_def)
  have nl: "''BOGUS'' \<notin> log_levels" by (simp add: log_levels_def)
  from ft nl have h9: "first_token ''BOGUS x'' \<notin> log_levels \<or> CHR '' '' \<notin> set ''BOGUS x''"
    by simp
  from malformed_line_skipped [OF h1 h2 h3 h4 h5 h6 h7 h8 h9, of "''logs''"] obtain le d' evs gs where
    "collect_ebuild_messages ?phases ''logs'' ?d = Inr (le, d', evs)"
    "le ''compile'' = Some gs"
    "maximal_runs (valid_entries ([''INFO a''] @ [''INFO b'', ''WARN c'', []])) gs"
    by blast
  with ev have "maximal_runs (valid_entries ([''INFO a''] @ [''INFO b'', ''WARN c'', []]))
        [(Some ''INFO'', [''a'', ''b'']), (Some ''WARN'', [''c''])]"
    by auto
  with h7 ft nl ev show ?thesis by (intro conjI)
qed

text \<open>
  Claim C8. The files are reached in the reverse of the order in which
  \<^verbatim>\<open>os.listdir\<close> returned them.
\<close>

theorem files_visited_in_reverse:
  assumes "listdir d = Some listing"
    and "\<forall>n \<in> set listing. n \<in> phases \<longrightarrow> io_open d n \<noteq> None"
  shows "\<exists>le d' evs. collect_ebuild_messages phases path d = Inr (le, d', evs)
           \<and> visited evs = map (os_path_join path) (rev listing)"
proof -
  from collect_ebuild_messages_returns [OF assms, of path] obtain le evs where
    p: "process_files phases path d (rev listing) Map.empty = Inr (le, evs)" and
    c: "collect_ebuild_messages phases path d =
           Inr (le, fst (unlink_all path (rev listing) d),
                evs @ map (\<lambda>n. Os_unlink (os_path_join path n)) (rev listing))"
    by blast
  from process_files_visited [OF p] have "visited evs = map (os_path_join path) (rev listing)" by simp
  with c show ?thesis by (simp add: visited_append visited_unlinks)
qed

theorem files_visited_in_reverse_witness:
  "collect_ebuild_messages {''compile'', ''install''} ''logs''
     \<lparr>listdir = Some [''compile'', ''bogus'', ''install''],
      files = [''compile'' \<mapsto> \<lparr>data = Some ''INFO a'', removable = True\<rparr>,
               ''bogus'' \<mapsto> \<lparr>data = None, removable = False\<rparr>,
               ''install'' \<mapsto> \<lparr>data = Some ''WARN b'', removable = True\<rparr>]\<rparr>
   = Inr ([''install'' \<mapsto> [(Some ''WARN'', [''b''])], ''compile'' \<mapsto> [(Some ''INFO'', [''a''])]],
          \<lparr>listdir = Some [''bogus''], files = [''bogus'' \<mapsto> \<lparr>data = None, removable = False\<rparr>]\<rparr>,
          [Io_open ''logs/install'', Writemsg_invalid_file ''logs/bogus'', Io_open ''logs/compile'',
           Os_unlink ''logs/install'', Os_unlink ''logs/bogus'', Os_unlink ''logs/compile''])
   \<and> visited [Io_open ''logs/install'', Writemsg_invalid_file ''logs/bogus'', Io_open ''logs/compile'',
           Os_unlink ''logs/install'', Os_unlink ''logs/bogus'', Os_unlink ''logs/compile'']
     = map (os_path_join ''logs'') (rev [''compile'', ''bogus'', ''install''])
   \<and> map (os_path_join ''logs'') (rev [''compile'', ''bogus'', ''install''])
     = [''logs/install'', ''logs/bogus'', ''logs/compile'']"
proof -
  let ?d = "\<lparr>listdir = Some [''compile'', ''bogus'', ''install''],
      files = [''compile'' \<mapsto> \<lparr>data = Some ''INFO a'', removable = True\<rparr>,
               ''bogus'' \<mapsto> \<lparr>data = None, removable = False\<rparr>,
               ''install'' \<mapsto> \<lparr>data = Some ''WARN b'', removable = True\<rparr>]\<rparr>"
  let ?phases = "{''compile'', ''install''}"
  let ?evs = "[Io_open ''logs/install'', Writemsg_invalid_file ''logs/bogus'', Io_open ''logs/compile'',
           Os_unlink ''logs/install'', Os_unlink ''logs/bogus'', Os_unlink ''logs/compile'']"
  have ev: "collect_ebuild_messages ?phases ''logs'' ?d
   = Inr ([''install'' \<mapsto> [(Some ''WARN'', [''b''])], ''compile'' \<mapsto> [(Some ''INFO'', [''a''])]],
          \<lparr>listdir = Some [''bogus''], files = [''bogus'' \<mapsto> \<lparr>data = None, removable = False\<rparr>]\<rparr>,
          ?evs)"
    by (simp add: eval_simps fun_upd_twist)
  have h1: "listdir ?d = Some [''compile'', ''bogus'', ''install'']" by simp
  have h2: "\<forall>n \<in> set [''compile'', ''bogus'', ''install'']. n \<in> ?phases \<longrightarrow> io_open ?d n \<noteq> None"
    by (simp add: io_open_def)
  from files_visited_in_reverse [OF h1 h2, of "''logs''"] obtain le d' evs where
    "collect_ebuild_messages ?phases ''logs'' ?d = Inr (le, d', evs)"
    "visited evs = map (os_path_join ''logs'') (rev [''compile'', ''bogus'', ''install''])"
    by blast
  with ev have v: "visited ?evs = map (os_path_join ''logs'') (rev [''compile'', ''bogus'', ''install''])"
    by auto
  have j: "map (os_path_join ''logs'') (rev [''compile'', ''bogus'', ''install''])
     = [''logs/install'', ''logs/bogus'', ''logs/compile'']"
    by (simp add: os_path_join_def)
  from ev v j show ?thesis by (intro conjI)
qed


section \<open>Properties of the message buffer\<close>

subsection \<open>Auxiliary facts\<close>

lemma pop_phases_eq:
  "pop_phases ps (rv, pm) = (rv ++ (pm |` set ps), pm |` (- set ps))"
proof (induction ps arbitrary: rv pm)
  case Nil
  show ?case by simp
next
  case (Cons p ps)
  show ?case
  proof (cases "pm p")
    case None
    have a: "pm |` insert p (set ps) = pm |` set ps"
      using None by (auto simp: restrict_map_def fun_eq_iff)
    have b: "pm |` (- insert p (set ps)) = pm |` (- set ps)"
      using None by (auto simp: restrict_map_def fun_eq_iff)
    show ?thesis using None Cons.IH [of rv pm] by (simp add: a b)
  next
    case (Some es)
    have a: "rv(p \<mapsto> es) ++ (pm(p := None) |` set ps) = rv ++ (pm |` insert p (set ps))"
      using Some by (auto simp: restrict_map_def fun_eq_iff map_add_def split: option.splits)
    have b: "pm(p := None) |` (- set ps) = pm |` (- insert p (set ps))"
      by (auto simp: restrict_map_def fun_eq_iff)
    have "pop_phases (p # ps) (rv, pm) = pop_phases ps (rv(p \<mapsto> es), pm(p := None))"
      using Some by simp
    also have "\<dots> = (rv(p \<mapsto> es) ++ (pm(p := None) |` set ps), pm(p := None) |` (- set ps))"
      by (rule Cons.IH)
    also have "\<dots> = (rv ++ (pm |` set (p # ps)), pm |` (- set (p # ps)))"
      by (simp only: a b list.set)
    finally show ?thesis .
  qed
qed

lemma pop_phases_empty:
  "pop_phases ps (Map.empty, pm) = (pm |` set ps, pm |` (- set ps))"
  by (simp add: pop_phases_eq)

lemma buffer_ok_empty: "buffer_ok Map.empty"
  by (simp add: buffer_ok_def)

lemma buffer_ok_elog_base: "buffer_ok buf \<Longrightarrow> buffer_ok (elog_base level msg phase key buf)"
  unfolding buffer_ok_def elog_base_def Let_def
  by (auto split: if_splits option.splits)

lemma buffer_ok_collect: "buffer_ok buf \<Longrightarrow> buffer_ok (snd (collect_messages key pf buf))"
  unfolding buffer_ok_def collect_messages_def reset_buffer_def
  by (auto simp: pop_phases_empty restrict_map_def split: option.splits if_splits)

lemma buffer_ok_run: "buffer_ok buf \<Longrightarrow> buffer_ok (run cs buf)"
proof (induction cs arbitrary: buf)
  case Nil
  then show ?case by simp
next
  case (Cons c cs)
  have "buffer_ok (run_call c buf)"
    using Cons.prems by (cases c) (simp_all add: buffer_ok_elog_base buffer_ok_collect reset_buffer_def buffer_ok_empty)
  then show ?case by (simp add: Cons.IH)
qed

lemma collect_entries_at:
  assumes "collect_messages key pf buf = (rv, buf')"
  shows "(entries_at rv k p = [] \<or> entries_at buf' k p = [])
       \<and> (entries_at buf' k p = [] \<or> entries_at buf' k p = entries_at buf k p)
       \<and> (entries_at rv k p = [] \<or> entries_at rv k p = entries_at buf k p)"
  using assms unfolding collect_messages_def reset_buffer_def entries_at_def
  by (auto simp: pop_phases_empty restrict_map_def split: option.splits if_splits)

lemma drains_length: "length (drains cs buf) = length cs"
  by (induction cs buf rule: drains.induct) (auto split: prod.splits)

lemma drains_from_buffer:
  "r \<in> set (drains cs buf) \<Longrightarrow> entries_at r k p = [] \<or> entries_at r k p = entries_at buf k p"
proof (induction cs buf rule: drains.induct)
  case (1 buf)
  then show ?case by simp
next
  case (2 key pf cs buf)
  obtain rv buf' where c: "collect_messages key pf buf = (rv, buf')"
    by (cases "collect_messages key pf buf")
  note e = collect_entries_at [OF c, of k p]
  from 2(2) c have "r = rv \<or> r \<in> set (drains cs buf')" by simp
  then show ?case
  proof
    assume "r = rv"
    with e show ?thesis by simp
  next
    assume "r \<in> set (drains cs buf')"
    from 2(1) [OF c [symmetric] this] e show ?thesis by metis
  qed
qed


subsection \<open>The claims about the buffer\<close>

text \<open>
  Claim C2, as amended. The claim has \<^verbatim>\<open>collect_messages(key=K)\<close> return the mapping
  of the phases; the function returns that mapping under the key. For a key \<open>k\<close>
  with nothing in the buffer, after \<^verbatim>\<open>_elog_base("INFO", m1, phase="build", key=k)\<close>
  and \<^verbatim>\<open>_elog_base("WARN", m2, phase="build", key=k)\<close> the call
  \<^verbatim>\<open>collect_messages(key=k)\<close> returns \<^verbatim>\<open>{k: {"build": [("INFO", m1), ("WARN", m2)]}}\<close>
  and leaves the buffer as it was before the two messages; the same call on that
  buffer returns the empty mapping.
\<close>

theorem collect_messages_round_trip:
  assumes "buf (Some k) = None"
  shows "collect_messages (Some k) None
           (elog_base ''WARN'' m2 ''build'' (Some k) (elog_base ''INFO'' m1 ''build'' (Some k) buf))
         = ([Some k \<mapsto> [''build'' \<mapsto> [(''INFO'', m1), (''WARN'', m2)]]], buf)
       \<and> collect_messages (Some k) None buf = (Map.empty, buf)"
  using assms by (simp add: collect_messages_def elog_base_def fun_upd_idem)

theorem collect_messages_round_trip_witness:
  "(Map.empty :: string msgbuffer) (Some ''pkg-1.0'') = None
   \<and> collect_messages (Some ''pkg-1.0'') None
           (elog_base ''WARN'' ''m2'' ''build'' (Some ''pkg-1.0'')
              (elog_base ''INFO'' ''m1'' ''build'' (Some ''pkg-1.0'') Map.empty))
         = ([Some ''pkg-1.0'' \<mapsto> [''build'' \<mapsto> [(''INFO'', ''m1''), (''WARN'', ''m2'')]]], Map.empty)
   \<and> collect_messages (Some ''pkg-1.0'') None (Map.empty :: string msgbuffer) = (Map.empty, Map.empty)"
  using collect_messages_round_trip [of "Map.empty :: string msgbuffer" "''pkg-1.0''" "''m2''" "''m1''"] by simp

text \<open>
  Claim C2 as stated fails: the returned mapping has no entry \<^verbatim>\<open>"build"\<close>; the
  phases are found under the key.
\<close>

theorem collect_messages_round_trip_counterexample:
  "fst (collect_messages (Some ''pkg-1.0'') None
           (elog_base ''WARN'' ''m2'' ''build'' (Some ''pkg-1.0'')
              (elog_base ''INFO'' ''m1'' ''build'' (Some ''pkg-1.0'') Map.empty))) (Some ''build'') = None
   \<and> fst (collect_messages (Some ''pkg-1.0'') None
           (elog_base ''WARN'' ''m2'' ''build'' (Some ''pkg-1.0'')
              (elog_base ''INFO'' ''m1'' ''build'' (Some ''pkg-1.0'') Map.empty))) (Some ''pkg-1.0'')
       = Some [''build'' \<mapsto> [(''INFO'', ''m1''), (''WARN'', ''m2'')]]"
  by (simp add: collect_messages_def elog_base_def)

text \<open>
  Claim C3. When the key \<open>k\<close> is in the buffer with the phases \<open>pm\<close>,
  \<^verbatim>\<open>collect_messages(key=k, phasefilter=ps)\<close> returns under \<open>k\<close> exactly the phases
  of \<open>pm\<close> that are listed in \<open>ps\<close>; phases of \<open>ps\<close> that \<open>pm\<close> does not have
  are passed over. When no phase is left the key is removed from the buffer, otherwise
  the key keeps its other phases as they were. Every other key is as before.
\<close>

theorem collect_messages_phasefilter:
  assumes "buf (Some k) = Some pm"
  shows "collect_messages (Some k) (Some ps) buf =
           ([Some k \<mapsto> pm |` set ps],
            if pm |` (- set ps) = Map.empty then buf(Some k := None)
            else buf(Some k \<mapsto> pm |` (- set ps)))"
  using assms by (simp add: collect_messages_def pop_phases_empty)

theorem collect_messages_phasefilter_witness:
  "[Some ''K'' \<mapsto> [''build'' \<mapsto> [(''INFO'', ''m1'')], ''install'' \<mapsto> [(''WARN'', ''m2'')]]] (Some ''K'')
     = Some [''build'' \<mapsto> [(''INFO'', ''m1'')], ''install'' \<mapsto> [(''WARN'', ''m2'')]]
   \<and> collect_messages (Some ''K'') (Some [''build'', ''test''])
       [Some ''K'' \<mapsto> [''build'' \<mapsto> [(''INFO'', ''m1'')], ''install'' \<mapsto> [(''WARN'', ''m2'')]]]
     = ([Some ''K'' \<mapsto> [''build'' \<mapsto> [(''INFO'', ''m1'')]]],
        [Some ''K'' \<mapsto> [''install'' \<mapsto> [(''WARN'', ''m2'')]]])"
proof -
  let ?pm = "[''build'' \<mapsto> [(''INFO'', ''m1'')], ''install'' \<mapsto> [(''WARN'', ''m2'')]]"
  have a: "?pm |` set [''build'', ''test''] = [''build'' \<mapsto> [(''INFO'', ''m1'')]]"
    by (auto simp: restrict_map_def fun_eq_iff)
  have b: "?pm |` (- set [''build'', ''test'']) = [''install'' \<mapsto> [(''WARN'', ''m2'')]]"
    by (auto simp: restrict_map_def fun_eq_iff)
  have c: "[''install'' \<mapsto> [(''WARN'', ''m2'')]] \<noteq> Map.empty"
    by simp
  show ?thesis
    using collect_messages_phasefilter [of "[Some ''K'' \<mapsto> ?pm]" "''K''" ?pm "[''build'', ''test'']"]
    unfolding a b using c by simp
qed

text \<open>
  Claim C4. In a sequence of \<^verbatim>\<open>collect_messages\<close> calls of any kind, with no call of
  \<^verbatim>\<open>_elog_base\<close> in between, the entries under a key and a phase are part of the
  result of at most one call: of two results, one has no entries there. What a result
  holds under a key and a phase is what the buffer held there before the first call.
\<close>

theorem drains_exactly_once:
  assumes "i < j" and "j < length cs"
  shows "(entries_at (drains cs buf ! i) k p = [] \<or> entries_at (drains cs buf ! j) k p = [])
       \<and> (entries_at (drains cs buf ! i) k p = []
            \<or> entries_at (drains cs buf ! i) k p = entries_at buf k p)
       \<and> (entries_at (drains cs buf ! j) k p = []
            \<or> entries_at (drains cs buf ! j) k p = entries_at buf k p)"
proof -
  have once: "entries_at (drains cs buf ! i) k p = [] \<or> entries_at (drains cs buf ! j) k p = []"
    using assms
  proof (induction cs buf arbitrary: i j rule: drains.induct)
    case (1 buf)
    then show ?case by simp
  next
    case (2 key pf cs buf)
    obtain rv buf' where c: "collect_messages key pf buf = (rv, buf')"
      by (cases "collect_messages key pf buf")
    note e = collect_entries_at [OF c, of k p]
    from 2(2) obtain j' where j: "j = Suc j'" by (cases j) auto
    with 2(3) have j'len: "j' < length cs" by simp
    show ?case
    proof (cases i)
      case 0
      have "drains cs buf' ! j' \<in> set (drains cs buf')"
        using j'len by (simp add: drains_length)
      from drains_from_buffer [OF this, of k p] e show ?thesis
        using c 0 j by auto
    next
      case (Suc i')
      with 2(2) j have "i' < j'" by simp
      from 2(1) [OF c [symmetric] this j'len] show ?thesis
        using c Suc j by simp
    qed
  qed
  from assms have "drains cs buf ! i \<in> set (drains cs buf)" "drains cs buf ! j \<in> set (drains cs buf)"
    by (simp_all add: drains_length)
  from drains_from_buffer [OF this(1), of k p] drains_from_buffer [OF this(2), of k p] once
  show ?thesis by blast
qed

theorem drains_exactly_once_witness:
  "(0::nat) < 1 \<and> (1::nat) < length [(Some ''K'', Some [''build'']), (Some ''K'', None)]
   \<and> drains [(Some ''K'', Some [''build'']), (Some ''K'', None)]
        [Some ''K'' \<mapsto> [''build'' \<mapsto> [(''INFO'', ''m1'')], ''install'' \<mapsto> [(''WARN'', ''m2'')]]]
      = [[Some ''K'' \<mapsto> [''build'' \<mapsto> [(''INFO'', ''m1'')]]], [Some ''K'' \<mapsto> [''install'' \<mapsto> [(''WARN'', ''m2'')]]]]
   \<and> (entries_at (drains [(Some ''K'', Some [''build'']), (Some ''K'', None)]
        [Some ''K'' \<mapsto> [''build'' \<mapsto> [(''INFO'', ''m1'')], ''install'' \<mapsto> [(''WARN'', ''m2'')]]] ! 0) (Some ''K'') ''build'' = []
      \<or> entries_at (drains [(Some ''K'', Some [''build'']), (Some ''K'', None)]
        [Some ''K'' \<mapsto> [''build'' \<mapsto> [(''INFO'', ''m1'')], ''install'' \<mapsto> [(''WARN'', ''m2'')]]] ! 1) (Some ''K'') ''build'' = [])"
proof -
  let ?b = "[Some ''K'' \<mapsto> [''build'' \<mapsto> [(''INFO'', ''m1'')], ''install'' \<mapsto> [(''WARN'', ''m2'')]]]"
  let ?cs = "[(Some ''K'', Some [''build'']), (Some ''K'', None)]"
  have l: "(1::nat) < length ?cs" by simp
  have d: "drains ?cs ?b
      = [[Some ''K'' \<mapsto> [''build'' \<mapsto> [(''INFO'', ''m1'')]]], [Some ''K'' \<mapsto> [''install'' \<mapsto> [(''WARN'', ''m2'')]]]]"
    by (auto simp: collect_messages_def fun_eq_iff)
  show ?thesis
    using drains_exactly_once [OF zero_less_one l, of ?b "Some ''K''" "''build''"] l d by simp
qed
text \<open>
  Claim C9. After any sequence of calls that starts with the empty buffer, every key
  of the buffer has at least one phase and every phase under a key has at least one
  entry.
\<close>

theorem buffer_nonempty_invariant:
  assumes "run cs Map.empty k = Some pm"
  shows "pm \<noteq> Map.empty \<and> (\<forall>p es. pm p = Some es \<longrightarrow> es \<noteq> [])"
  using buffer_ok_run [OF buffer_ok_empty, of cs] assms unfolding buffer_ok_def by blast

theorem buffer_nonempty_invariant_witness:
  "run [Record ''INFO'' ''m1'' ''build'' (Some ''K''), Record ''WARN'' ''m2'' ''install'' (Some ''K''),
        Drain (Some ''K'') (Some [''build''])] Map.empty (Some ''K'')
     = Some [''install'' \<mapsto> [(''WARN'', ''m2'')]]
   \<and> [''install'' \<mapsto> [(''WARN'', ''m2'')]] \<noteq> Map.empty
   \<and> [''install'' \<mapsto> [(''WARN'', ''m2'')]] ''install'' = Some [(''WARN'', ''m2'')]
   \<and> [(''WARN'', ''m2'')] \<noteq> []"
proof -
  have r: "run [Record ''INFO'' ''m1'' ''build'' (Some ''K''), Record ''WARN'' ''m2'' ''install'' (Some ''K''),
        Drain (Some ''K'') (Some [''build''])] Map.empty (Some ''K'')
     = Some [''install'' \<mapsto> [(''WARN'', ''m2'')]]"
    by (auto simp: collect_messages_def elog_base_def fun_eq_iff)
  have p: "[''install'' \<mapsto> [(''WARN'', ''m2'')]] ''install'' = Some [(''WARN'', ''m2'')]"
    by simp
  from buffer_nonempty_invariant [OF r] p
  have "[''install'' \<mapsto> [(''WARN'', ''m2'')]] \<noteq> Map.empty \<and> [(''WARN'', ''m2'')] \<noteq> []"
    by blast
  with r p show ?thesis by blast
qed

text \<open>
  Claim C10. In every buffer that a sequence of calls produces from the empty buffer,
  if the key \<open>k\<close> is present and no phase of the filter \<open>ps\<close> exists under it, then
  \<^verbatim>\<open>collect_messages(key=k, phasefilter=ps)\<close> returns \<^verbatim>\<open>{k: {}}\<close> and the buffer is
  unchanged.
\<close>

theorem collect_messages_no_match:
  assumes "buf = run cs Map.empty" and "buf (Some k) = Some pm" and "\<forall>p \<in> set ps. pm p = None"
  shows "collect_messages (Some k) (Some ps) buf = ([Some k \<mapsto> Map.empty], buf)"
proof -
  have ne: "pm \<noteq> Map.empty"
    using buffer_ok_run [OF buffer_ok_empty, of cs] assms(1,2) unfolding buffer_ok_def by blast
  have a: "pm |` set ps = Map.empty"
    using assms(3) by (auto simp: restrict_map_def fun_eq_iff)
  have b: "pm |` (- set ps) = pm"
    using assms(3) by (auto simp: restrict_map_def fun_eq_iff)
  have c: "buf(Some k \<mapsto> pm) = buf"
    using assms(2) by (simp add: map_upd_triv)
  show ?thesis
    using assms(2) ne by (simp add: collect_messages_def pop_phases_empty a b c)
qed

theorem collect_messages_no_match_witness:
  "run [Record ''INFO'' ''m1'' ''build'' (Some ''K'')] Map.empty (Some ''K'') = Some [''build'' \<mapsto> [(''INFO'', ''m1'')]]
   \<and> [''build'' \<mapsto> [(''INFO'', ''m1'')]] ''install'' = None
   \<and> collect_messages (Some ''K'') (Some [''install'']) (run [Record ''INFO'' ''m1'' ''build'' (Some ''K'')] Map.empty)
      = ([Some ''K'' \<mapsto> Map.empty], [Some ''K'' \<mapsto> [''build'' \<mapsto> [(''INFO'', ''m1'')]]])"
proof -
  have r: "run [Record ''INFO'' ''m1'' ''build'' (Some ''K'')] Map.empty
            = [Some ''K'' \<mapsto> [''build'' \<mapsto> [(''INFO'', ''m1'')]]]"
    by (simp add: elog_base_def)
  have n: "[''build'' \<mapsto> [(''INFO'', ''m1'')]] ''install'' = None"
    by simp
  have h: "\<forall>p \<in> set [''install'']. [''build'' \<mapsto> [(''INFO'', ''m1'')]] p = None"
    by simp
  have k: "run [Record ''INFO'' ''m1'' ''build'' (Some ''K'')] Map.empty (Some ''K'') = Some [''build'' \<mapsto> [(''INFO'', ''m1'')]]"
    by (simp add: elog_base_def)
  have c: "collect_messages (Some ''K'') (Some [''install'']) (run [Record ''INFO'' ''m1'' ''build'' (Some ''K'')] Map.empty)
      = ([Some ''K'' \<mapsto> Map.empty], [Some ''K'' \<mapsto> [''build'' \<mapsto> [(''INFO'', ''m1'')]]])"
    using collect_messages_no_match [OF refl k h] by (simp only: r)
  from k n c show ?thesis by (intro conjI)
qed

end
